theory Spec2Isabelle
  imports Main "HOL-Library.Code_Target_Nat"
begin

section \<open>Strings, character classes and the regular expressions of main.py\<close>

text \<open>
  A Python \<^verbatim>\<open>str\<close> is a sequence of Unicode code points. It is modelled as a list of
  natural numbers, one per code point, so that \<^const>\<open>length\<close> counts what Python's
  \<^verbatim>\<open>len\<close> counts and no code point is left out (Python's code points end at U+10FFFF;
  what is proved of every list of numbers holds of every \<^verbatim>\<open>str\<close>). \<open>lit\<close> reads a
  literal of the source, whose characters are all below U+0100.
\<close>

type_synonym str = "nat list"

definition lit :: "string \<Rightarrow> str" where
  "lit s = map of_char s"

text \<open>The characters that \<^verbatim>\<open>str.strip()\<close> removes when called without an argument.\<close>

definition is_space :: "nat \<Rightarrow> bool" where
  "is_space n =
     ((9 \<le> n \<and> n \<le> 13) \<or> (28 \<le> n \<and> n \<le> 32) \<or> n = 133 \<or> n = 160 \<or> n = 5760 \<or>
      (8192 \<le> n \<and> n \<le> 8202) \<or> n = 8232 \<or> n = 8233 \<or> n = 8239 \<or> n = 8287 \<or> n = 12288)"

text \<open>
  \<^verbatim>\<open>\w\<close> of a \<^verbatim>\<open>str\<close> pattern: the alphanumeric code points and the underscore.
  Below U+0100 the table is written out: beyond ASCII it holds the ordinal indicators,
  the superscript digits, the micro sign, the vulgar fractions and the accented letters
  (not the multiplication and division signs 0xD7 and 0xF7). From U+0100 on the table of
  the Unicode database is the parameter \<open>A\<close>, read everywhere but at the code points
  whose class the proofs need: the letters U+0130, U+0131, U+017F and U+212A, which are
  alphanumeric, and the white space of \<^const>\<open>is_space\<close>, which is not. Every theorem
  below holds for every table \<open>A\<close>, so for the one of the interpreter that runs the code.
\<close>

definition is_word :: "(nat \<Rightarrow> bool) \<Rightarrow> nat \<Rightarrow> bool" where
  "is_word A n =
     (if n < 256 then
        (48 \<le> n \<and> n \<le> 57) \<or> (65 \<le> n \<and> n \<le> 90) \<or> n = 95 \<or> (97 \<le> n \<and> n \<le> 122) \<or>
        n = 170 \<or> n = 178 \<or> n = 179 \<or> n = 181 \<or> n = 185 \<or> n = 186 \<or>
        (188 \<le> n \<and> n \<le> 190) \<or> (192 \<le> n \<and> n \<le> 214) \<or> (216 \<le> n \<and> n \<le> 246) \<or>
        (248 \<le> n \<and> n \<le> 255)
      else if n = 304 \<or> n = 305 \<or> n = 383 \<or> n = 8490 then True
      else if is_space n then False
      else A n)"

text \<open>The class \<^verbatim>\<open>[a-zA-Z]\<close>, compiled without \<^verbatim>\<open>re.I\<close>: the ASCII letters.\<close>

definition is_ascii_letter :: "nat \<Rightarrow> bool" where
  "is_ascii_letter n = ((65 \<le> n \<and> n \<le> 90) \<or> (97 \<le> n \<and> n \<le> 122))"

text \<open>
  A literal of a pattern compiled with \<^verbatim>\<open>re.I\<close>. Every pattern of main.py that is
  compiled so is a run of ASCII letters. Such a letter matches itself in either case
  and the code points that Unicode case folding sends to it: U+0130 and U+0131 for
  \<^verbatim>\<open>i\<close>, U+017F for \<^verbatim>\<open>s\<close> and U+212A for \<^verbatim>\<open>k\<close>. Any other literal is
  compared as it is, which is what \<^verbatim>\<open>re\<close> does for a character without case.
\<close>

definition lower_ascii :: "nat \<Rightarrow> nat" where
  "lower_ascii n = (if 65 \<le> n \<and> n \<le> 90 then n + 32 else n)"

definition case_variants :: "nat \<Rightarrow> nat list" where
  "case_variants lo =
     [lo, lo - 32] @
     (if lo = 105 then [304, 305] else if lo = 115 then [383] else if lo = 107 then [8490]
      else [])"

definition ieq :: "nat \<Rightarrow> nat \<Rightarrow> bool" where
  "ieq p c = (if is_ascii_letter p then c \<in> set (case_variants (lower_ascii p)) else c = p)"

text \<open>A literal pattern under \<^verbatim>\<open>re.I\<close>, matched at the head of the text.\<close>

fun imatch :: "str \<Rightarrow> str \<Rightarrow> bool" where
  "imatch [] s = True"
| "imatch (p # ps) [] = False"
| "imatch (p # ps) (c # cs) = (ieq p c \<and> imatch ps cs)"

text \<open>
  \<^verbatim>\<open>\b\<close>: the position between \<open>prev\<close> (the character before it, if any) and
  \<open>nxt\<close> (the character at it, if any) is a boundary when exactly one of the two is a
  word character; a missing character counts as a non-word character.
\<close>

definition opt_word :: "(nat \<Rightarrow> bool) \<Rightarrow> nat option \<Rightarrow> bool" where
  "opt_word A oc = (case oc of None \<Rightarrow> False | Some c \<Rightarrow> is_word A c)"

definition at_boundary :: "(nat \<Rightarrow> bool) \<Rightarrow> nat option \<Rightarrow> nat option \<Rightarrow> bool" where
  "at_boundary A prev nxt = (opt_word A prev \<noteq> opt_word A nxt)"

definition head_opt :: "str \<Rightarrow> nat option" where
  "head_opt s = (case s of [] \<Rightarrow> None | c # _ \<Rightarrow> Some c)"

definition last_opt :: "nat option \<Rightarrow> str \<Rightarrow> nat option" where
  "last_opt prev s = (if s = [] then prev else Some (last s))"

text \<open>
  \<^verbatim>\<open>\bKW\b\<close> under \<^verbatim>\<open>re.I\<close>, tried at one position: \<open>prev\<close> is the character before
  the position and \<open>s\<close> the text from the position on.
\<close>

definition kw_here :: "(nat \<Rightarrow> bool) \<Rightarrow> str \<Rightarrow> nat option \<Rightarrow> str \<Rightarrow> bool" where
  "kw_here A kw prev s =
     (at_boundary A prev (head_opt s) \<and> imatch kw s \<and>
      at_boundary A (last_opt prev (take (length kw) s)) (head_opt (drop (length kw) s)))"

text \<open>
  \<^verbatim>\<open>re.search(r"\b(K1|...|Kn)\b", s, re.I)\<close> finds a match: the scan tries every
  position from left to right, the end of the text included, and every alternative there.
\<close>

fun search_from :: "(nat \<Rightarrow> bool) \<Rightarrow> str list \<Rightarrow> nat option \<Rightarrow> str \<Rightarrow> bool" where
  "search_from A kws prev [] = list_ex (\<lambda>kw. kw_here A kw prev []) kws"
| "search_from A kws prev (c # cs) =
     (list_ex (\<lambda>kw. kw_here A kw prev (c # cs)) kws \<or> search_from A kws (Some c) cs)"

definition re_search_words :: "(nat \<Rightarrow> bool) \<Rightarrow> str list \<Rightarrow> str \<Rightarrow> bool" where
  "re_search_words A kws s = search_from A kws None s"

text \<open>
  \<^verbatim>\<open>re.sub(pat, rep, s, flags=re.I)\<close> for a non-empty literal pattern and a replacement
  without escapes: the leftmost match is replaced and the scan goes on behind it, so the
  matches replaced do not overlap and the replacement is not scanned again.
\<close>

fun re_sub_lit :: "str \<Rightarrow> str \<Rightarrow> str \<Rightarrow> str" where
  "re_sub_lit pat rep [] = []"
| "re_sub_lit pat rep (c # cs) =
     (if pat \<noteq> [] \<and> imatch pat (c # cs)
      then rep @ re_sub_lit pat rep (drop (length pat) (c # cs))
      else c # re_sub_lit pat rep cs)"

text \<open>\<^verbatim>\<open>s.strip()\<close> and \<^verbatim>\<open>s.rstrip(chars)\<close>.\<close>

definition strip :: "str \<Rightarrow> str" where
  "strip s = rev (dropWhile is_space (rev (dropWhile is_space s)))"

definition rstrip :: "str \<Rightarrow> str \<Rightarrow> str" where
  "rstrip chars s = rev (dropWhile (\<lambda>c. c \<in> set chars) (rev s))"

section \<open>The sanitizer\<close>

text \<open>
  \<^verbatim>\<open>raise HTTPException(status_code=..., detail=...)\<close> is the error that main.py raises
  itself. \<open>BadResponseBody\<close> stands for the exceptions that escape from
  \<^verbatim>\<open>r.json()["choices"][0]["message"]["content"].strip()\<close> when the body of the
  response is not JSON of that shape.
\<close>

datatype error = HTTPException nat str | BadResponseBody

definition DANGEROUS :: "str list" where
  "DANGEROUS = map lit [''INSERT'', ''UPDATE'', ''DELETE'', ''DROP'', ''ALTER'', ''TRUNCATE'',
                        ''CREATE'', ''GRANT'', ''REVOKE'']"

definition fixes_dict :: "(str \<times> str) list" where
  \<open>fixes_dict = [(lit ''vendorid'', lit ''"vendorId"''),
                 (lit ''invoiceid'', lit ''"invoiceId"''),
                 (lit ''customerid'', lit ''"customerId"''),
                 (lit ''paymentid'', lit ''"paymentId"''),
                 (lit ''totalamount'', lit ''"totalAmount"''),
                 (lit ''totalvalue'', lit ''"totalValue"''),
                 (lit ''invoicedate'', lit ''"invoiceDate"'')]\<close>

text \<open>
  The dictionary \<^verbatim>\<open>fixes\<close> (the name is a keyword here) is the association list
  above; the loop over \<^verbatim>\<open>fixes.items()\<close> runs in its insertion order.
\<close>

fun apply_fixes :: "(str \<times> str) list \<Rightarrow> str \<Rightarrow> str" where
  "apply_fixes [] sql = sql"
| "apply_fixes ((bad, good) # rest) sql = apply_fixes rest (re_sub_lit bad good sql)"

definition sanitize_sql :: "(nat \<Rightarrow> bool) \<Rightarrow> str \<Rightarrow> error + str" where
  "sanitize_sql A sql =
     (if re_search_words A DANGEROUS sql
      then Inl (HTTPException 400 (lit ''Unsafe SQL blocked. Only SELECT allowed.''))
      else if \<not> re_search_words A [lit ''SELECT''] sql
      then Inl (HTTPException 400 (lit ''Only SELECT queries are allowed.''))
      else let sql1 = apply_fixes fixes_dict sql
           in if \<not> re_search_words A [lit ''LIMIT''] sql1
              then Inr (rstrip (lit '';'') (strip sql1) @ lit '' LIMIT 500'')
              else Inr sql1)"

section \<open>The post-processing of the generator's answer\<close>







section \<open>Occurrences of a keyword, as the specification words them\<close>

text \<open>
  The text \<open>pre @ w @ post\<close> holds the keyword \<open>kw\<close> at \<open>w\<close> when \<open>w\<close> is \<open>kw\<close>
  letter by letter up to case, the character before \<open>w\<close> (if any) is not a word
  character and neither is the character behind it (if any): a case-insensitive,
  word-boundary-delimited occurrence. \<open>contains_word\<close> says that some keyword of the
  list occurs somewhere; it is compared below with the scan of \<^const>\<open>re_search_words\<close>.
\<close>

definition word_occurrence :: "(nat \<Rightarrow> bool) \<Rightarrow> str \<Rightarrow> str \<Rightarrow> str \<Rightarrow> str \<Rightarrow> bool" where
  "word_occurrence A kw pre w post =
     (list_all2 ieq kw w \<and> \<not> opt_word A (last_opt None pre) \<and> \<not> opt_word A (head_opt post))"

definition contains_word :: "(nat \<Rightarrow> bool) \<Rightarrow> str list \<Rightarrow> str \<Rightarrow> bool" where
  "contains_word A kws s =
     (\<exists>kw pre w post. kw \<in> set kws \<and> s = pre @ w @ post \<and> word_occurrence A kw pre w post)"

text \<open>Every keyword of main.py is a non-empty run of ASCII letters.\<close>

definition keywords_ok :: "str list \<Rightarrow> bool" where
  "keywords_ok kws = list_all (\<lambda>kw. kw \<noteq> [] \<and> list_all is_ascii_letter kw) kws"

text \<open>
  The number of positions at which \<^verbatim>\<open>\bKW\b\<close> matches under \<^verbatim>\<open>re.I\<close>, counted by
  the same scan as \<^const>\<open>search_from\<close>. Two matches of one keyword cannot overlap (the
  second would start behind a word character), so this is the number of clauses written
  with that keyword.
\<close>

fun count_from :: "(nat \<Rightarrow> bool) \<Rightarrow> str \<Rightarrow> nat option \<Rightarrow> str \<Rightarrow> nat" where
  "count_from A kw prev [] = (if kw_here A kw prev [] then 1 else 0)"
| "count_from A kw prev (c # cs) =
     (if kw_here A kw prev (c # cs) then 1 else 0) + count_from A kw (Some c) cs"

definition count_words :: "(nat \<Rightarrow> bool) \<Rightarrow> str \<Rightarrow> str \<Rightarrow> nat" where
  "count_words A kw s = count_from A kw None s"

text \<open>Every key of the table of fixes is a run of ASCII letters.\<close>

definition patterns_ok :: "(str \<times> str) list \<Rightarrow> bool" where
  "patterns_ok F = list_all (\<lambda>(bad, good). list_all is_ascii_letter bad) F"





section \<open>The scan finds exactly the occurrences\<close>

lemma word_low: "n < 256 \<Longrightarrow> is_word A n =
   ((48 \<le> n \<and> n \<le> 57) \<or> (65 \<le> n \<and> n \<le> 90) \<or> n = 95 \<or> (97 \<le> n \<and> n \<le> 122) \<or>
        n = 170 \<or> n = 178 \<or> n = 179 \<or> n = 181 \<or> n = 185 \<or> n = 186 \<or>
        (188 \<le> n \<and> n \<le> 190) \<or> (192 \<le> n \<and> n \<le> 214) \<or> (216 \<le> n \<and> n \<le> 246) \<or>
        (248 \<le> n \<and> n \<le> 255))"
  by (simp only: is_word_def if_True)

lemma ascii_letter_word: "(65 \<le> n \<and> n \<le> 90) \<or> (97 \<le> n \<and> n \<le> 122) \<Longrightarrow> is_word A n"
proof -
  assume a: "(65 \<le> n \<and> n \<le> 90) \<or> (97 \<le> n \<and> n \<le> 122)"
  then have "n < 256" by arith
  from word_low[OF this] a show ?thesis by blast
qed

lemma folded_word: "n = 304 \<or> n = 305 \<or> n = 383 \<or> n = 8490 \<Longrightarrow> is_word A n"
proof -
  assume a: "n = 304 \<or> n = 305 \<or> n = 383 \<or> n = 8490"
  then have "\<not> n < 256" by arith
  with a show ?thesis by (simp only: is_word_def if_False if_True)
qed

lemma ieq_cases:
  assumes "is_ascii_letter p" "ieq p c"
  shows "((65 \<le> c \<and> c \<le> 90) \<or> (97 \<le> c \<and> c \<le> 122)) \<or> (c = 304 \<or> c = 305 \<or> c = 383 \<or> c = 8490)"
proof -
  from assms have m: "c \<in> set (case_variants (lower_ascii p))" by (simp only: ieq_def if_True)
  from assms(1) have lo: "97 \<le> lower_ascii p \<and> lower_ascii p \<le> 122"
    unfolding is_ascii_letter_def lower_ascii_def by (cases "65 \<le> p \<and> p \<le> 90") simp_all
  define lo where "lo = lower_ascii p"
  from m have "c = lo \<or> c = lo - 32 \<or> c = 304 \<or> c = 305 \<or> c = 383 \<or> c = 8490"
    unfolding lo_def[symmetric] case_variants_def by (auto split: if_splits)
  with lo[folded lo_def] show ?thesis by arith
qed

lemma ieq_letter_word: "is_ascii_letter p \<Longrightarrow> ieq p c \<Longrightarrow> is_word A c"
  using ieq_cases[of p c] ascii_letter_word[of c A] folded_word[of c A] by blast

lemma space_not_word: "is_space c \<Longrightarrow> \<not> is_word A c"
proof (cases "c < 256")
  case True
  assume "is_space c"
  with True show ?thesis unfolding word_low[OF True] is_space_def by arith
next
  case False
  assume s: "is_space c"
  then have "\<not> (c = 304 \<or> c = 305 \<or> c = 383 \<or> c = 8490)" unfolding is_space_def by arith
  with False s show ?thesis by (simp only: is_word_def if_False if_True not_False_eq_True)
qed

lemma imatch_length: "imatch kw s \<Longrightarrow> length kw \<le> length s"
  by (induction kw s rule: imatch.induct) simp_all

lemma imatch_append_nonword:
  "list_all is_ascii_letter kw \<Longrightarrow> \<not> is_word A c \<Longrightarrow> imatch kw (a @ c # b) = imatch kw a"
proof (induction kw a rule: imatch.induct)
  case (1 s)
  then show ?case by simp
next
  case (2 p ps)
  then show ?case using ieq_letter_word[of p c A] by auto
next
  case (3 p ps x xs)
  then show ?case by simp
qed

lemma imatch_take: "imatch kw s \<Longrightarrow> list_all2 ieq kw (take (length kw) s)"
  by (induction kw s rule: imatch.induct) simp_all

lemma imatch_append: "list_all2 ieq kw w \<Longrightarrow> imatch kw (w @ post)"
proof (induction kw arbitrary: w)
  case Nil
  then show ?case by simp
next
  case (Cons p ps)
  then obtain c cs where "w = c # cs" "ieq p c" "list_all2 ieq ps cs"
    by (cases w) auto
  with Cons show ?case by simp
qed

lemma list_all2_ieq_word:
  "list_all is_ascii_letter kw \<Longrightarrow> list_all2 ieq kw w \<Longrightarrow> list_all (is_word A) w"
proof (induction kw arbitrary: w)
  case Nil
  then show ?case by simp
next
  case (Cons p ps)
  then obtain c cs where "w = c # cs" "ieq p c" "list_all2 ieq ps cs"
    by (cases w) auto
  with Cons show ?case using ieq_letter_word[of p c A] by simp
qed

lemma copy_ends_word:
  assumes "kw \<noteq> []" "list_all is_ascii_letter kw" "list_all2 ieq kw w"
  shows "w \<noteq> [] \<and> is_word A (hd w) \<and> is_word A (last w)"
proof -
  from assms(1,3) have ne: "w \<noteq> []" by auto
  from assms(2,3) have "list_all (is_word A) w" by (rule list_all2_ieq_word)
  with ne show ?thesis by (simp add: list_all_iff)
qed

lemma kw_here_iff:
  assumes "kw \<noteq> []" "list_all is_ascii_letter kw"
  shows "kw_here A kw prev s \<longleftrightarrow>
    (\<not> opt_word A prev \<and>
     (\<exists>w post. s = w @ post \<and> list_all2 ieq kw w \<and> \<not> opt_word A (head_opt post)))"
proof
  assume h: "kw_here A kw prev s"
  define w where "w = take (length kw) s"
  define post where "post = drop (length kw) s"
  from h have m: "imatch kw s" by (simp add: kw_here_def)
  then have c: "list_all2 ieq kw w" unfolding w_def by (rule imatch_take)
  from copy_ends_word[OF assms c] have e: "w \<noteq> []" "is_word A (hd w)" "is_word A (last w)"
    by auto
  have s: "s = w @ post" by (simp add: w_def post_def)
  from e s have hs: "head_opt s = Some (hd w)" by (cases w) (auto simp: head_opt_def)
  from h hs e have p: "\<not> opt_word A prev"
    by (simp add: kw_here_def at_boundary_def opt_word_def)
  from h e have "\<not> opt_word A (head_opt post)"
    by (simp add: kw_here_def at_boundary_def opt_word_def last_opt_def w_def post_def)
  with p s c show "\<not> opt_word A prev \<and>
      (\<exists>w post. s = w @ post \<and> list_all2 ieq kw w \<and> \<not> opt_word A (head_opt post))"
    by blast
next
  assume "\<not> opt_word A prev \<and>
      (\<exists>w post. s = w @ post \<and> list_all2 ieq kw w \<and> \<not> opt_word A (head_opt post))"
  then obtain w post where p: "\<not> opt_word A prev" and s: "s = w @ post"
    and c: "list_all2 ieq kw w" and q: "\<not> opt_word A (head_opt post)" by blast
  from copy_ends_word[OF assms c] have e: "w \<noteq> []" "is_word A (hd w)" "is_word A (last w)"
    by auto
  from c have l: "length w = length kw" by (simp add: list_all2_lengthD)
  from e s have hs: "head_opt s = Some (hd w)" by (cases w) (auto simp: head_opt_def)
  from c have m: "imatch kw s" unfolding s by (rule imatch_append)
  from l s have t: "take (length kw) s = w" "drop (length kw) s = post" by simp_all
  from p q e hs m t show "kw_here A kw prev s"
    by (simp add: kw_here_def at_boundary_def opt_word_def last_opt_def)
qed

lemma search_from_iff:
  assumes "keywords_ok kws"
  shows "search_from A kws prev s \<longleftrightarrow>
    (\<exists>kw pre w post. kw \<in> set kws \<and> s = pre @ w @ post \<and> list_all2 ieq kw w \<and>
       \<not> opt_word A (last_opt prev pre) \<and> \<not> opt_word A (head_opt post))"
proof (induction s arbitrary: prev)
  case Nil
  have "\<not> kw_here A kw prev []" if "kw \<in> set kws" for kw
  proof -
    from that assms have "kw \<noteq> []" by (auto simp: keywords_ok_def list_all_iff)
    then show ?thesis by (cases kw) (simp_all add: kw_here_def)
  qed
  moreover have "kw \<noteq> []" if "kw \<in> set kws" for kw
    using that assms by (auto simp: keywords_ok_def list_all_iff)
  ultimately show ?case by (auto simp: list_ex_iff)
next
  case (Cons c cs)
  have ok: "kw \<noteq> [] \<and> list_all is_ascii_letter kw" if "kw \<in> set kws" for kw
    using that assms by (auto simp: keywords_ok_def list_all_iff)
  show ?case
  proof
    assume "search_from A kws prev (c # cs)"
    then consider kw where "kw \<in> set kws" "kw_here A kw prev (c # cs)"
      | "search_from A kws (Some c) cs"
      by (auto simp: list_ex_iff)
    then show "\<exists>kw pre w post. kw \<in> set kws \<and> c # cs = pre @ w @ post \<and> list_all2 ieq kw w \<and>
       \<not> opt_word A (last_opt prev pre) \<and> \<not> opt_word A (head_opt post)"
    proof cases
      case 1
      from ok[OF 1(1)] 1(2) obtain w post where "\<not> opt_word A prev" "c # cs = w @ post"
        "list_all2 ieq kw w" "\<not> opt_word A (head_opt post)"
        by (auto simp: kw_here_iff)
      then have "c # cs = [] @ w @ post \<and> list_all2 ieq kw w \<and>
         \<not> opt_word A (last_opt prev []) \<and> \<not> opt_word A (head_opt post)"
        by (simp add: last_opt_def)
      with 1(1) show ?thesis by blast
    next
      case 2
      then obtain kw pre w post where k: "kw \<in> set kws" and d: "cs = pre @ w @ post"
        and r: "list_all2 ieq kw w" "\<not> opt_word A (last_opt (Some c) pre)"
          "\<not> opt_word A (head_opt post)"
        using Cons.IH by blast
      from r(2) have "\<not> opt_word A (last_opt prev (c # pre))"
        by (cases "pre = []") (simp_all add: last_opt_def)
      moreover from d have "c # cs = (c # pre) @ w @ post" by simp
      ultimately show ?thesis using k r by blast
    qed
  next
    assume "\<exists>kw pre w post. kw \<in> set kws \<and> c # cs = pre @ w @ post \<and> list_all2 ieq kw w \<and>
       \<not> opt_word A (last_opt prev pre) \<and> \<not> opt_word A (head_opt post)"
    then obtain kw pre w post where k: "kw \<in> set kws" and d: "c # cs = pre @ w @ post"
      and r: "list_all2 ieq kw w" "\<not> opt_word A (last_opt prev pre)"
        "\<not> opt_word A (head_opt post)"
      by blast
    show "search_from A kws prev (c # cs)"
    proof (cases pre)
      case Nil
      with d r have "kw_here A kw prev (c # cs)"
        using ok[OF k] by (auto simp: kw_here_iff last_opt_def)
      with k show ?thesis by (auto simp: list_ex_iff)
    next
      case (Cons x pre')
      with d have x: "x = c" and d': "cs = pre' @ w @ post" by simp_all
      from r(2) Cons x have "\<not> opt_word A (last_opt (Some c) pre')"
        by (cases "pre' = []") (simp_all add: last_opt_def)
      with k d' r have "search_from A kws (Some c) cs" using Cons.IH by blast
      then show ?thesis by simp
    qed
  qed
qed

lemma re_search_words_iff:
  "keywords_ok kws \<Longrightarrow> re_search_words A kws s = contains_word A kws s"
  by (simp add: re_search_words_def contains_word_def word_occurrence_def search_from_iff)

lemma keywords_ok_DANGEROUS: "keywords_ok DANGEROUS"
  by code_simp

lemma keywords_ok_SELECT: "keywords_ok [lit ''SELECT'']"
  by code_simp

lemma keywords_ok_LIMIT: "keywords_ok [lit ''LIMIT'']"
  by code_simp

section \<open>Substitution and stripping leave the word boundaries alone\<close>

lemma imatch_nonword_head:
  "pat \<noteq> [] \<Longrightarrow> list_all is_ascii_letter pat \<Longrightarrow> \<not> is_word A c \<Longrightarrow> \<not> imatch pat (c # b)"
  using ieq_letter_word[of _ c A] by (cases pat) auto

lemma re_sub_lit_sep:
  "list_all is_ascii_letter pat \<Longrightarrow> \<not> is_word A c \<Longrightarrow>
   re_sub_lit pat rep (a @ c # b) = re_sub_lit pat rep a @ c # re_sub_lit pat rep b"
proof (induction pat rep a rule: re_sub_lit.induct)
  case (1 pat rep)
  then have "\<not> (pat \<noteq> [] \<and> imatch pat (c # b))"
    using imatch_nonword_head[of pat A c b] by blast
  then show ?case by auto
next
  case (2 pat rep x xs)
  have m: "imatch pat (x # xs @ c # b) = imatch pat (x # xs)"
    using imatch_append_nonword[OF 2(3,4), of "x # xs" b] by simp
  show ?case
  proof (cases "pat \<noteq> [] \<and> imatch pat (x # xs)")
    case True
    then have "length pat \<le> length (x # xs)" using imatch_length by blast
    then have "drop (length pat) ((x # xs) @ c # b) = drop (length pat) (x # xs) @ c # b"
      by (simp only: drop_append diff_is_0_eq' drop_0)
    then have d: "drop (length pat) (x # xs @ c # b) = drop (length pat) (x # xs) @ c # b"
      by (simp only: append_Cons)
    from True m 2(1)[OF True 2(3,4)] d show ?thesis by simp
  next
    case False
    with m 2(2)[OF False 2(3,4)] show ?thesis by auto
  qed
qed

lemma apply_fixes_Nil: "apply_fixes F [] = []"
  by (induction F) auto

lemma apply_fixes_sep:
  "patterns_ok F \<Longrightarrow> \<not> is_word A c \<Longrightarrow>
   apply_fixes F (a @ c # b) = apply_fixes F a @ c # apply_fixes F b"
proof (induction F arbitrary: a b)
  case Nil
  then show ?case by simp
next
  case (Cons f F)
  obtain bad good where f: "f = (bad, good)" by (cases f)
  with Cons.prems have l: "list_all is_ascii_letter bad" and r: "patterns_ok F"
    by (simp_all add: patterns_ok_def)
  show ?case
    unfolding f using Cons.IH[OF r Cons.prems(2)]
    by (simp add: re_sub_lit_sep[OF l Cons.prems(2)])
qed



lemma nonword_ends:
  "list_all (\<lambda>c. \<not> is_word A c) xs \<Longrightarrow>
   \<not> opt_word A (head_opt xs) \<and> \<not> opt_word A (last_opt None xs)"
  by (cases xs) (auto simp: head_opt_def last_opt_def opt_word_def list_all_iff)

lemma last_opt_append:
  "last_opt None (a @ pre) = (if pre = [] then last_opt None a else last_opt None pre)"
  by (simp add: last_opt_def)

lemma head_opt_append:
  "head_opt (post @ b) = (if post = [] then head_opt b else head_opt post)"
  by (cases post) (simp_all add: head_opt_def)

lemma contains_word_embed:
  assumes "contains_word A kws core" "\<not> opt_word A (last_opt None a)"
    "\<not> opt_word A (head_opt b)"
  shows "contains_word A kws (a @ core @ b)"
proof -
  from assms(1) obtain kw pre w post where k: "kw \<in> set kws" and d: "core = pre @ w @ post"
    and o: "word_occurrence A kw pre w post"
    unfolding contains_word_def by blast
  from o assms(2,3) have "word_occurrence A kw (a @ pre) w (post @ b)"
    by (simp add: word_occurrence_def last_opt_append head_opt_append)
  moreover from d have "a @ core @ b = (a @ pre) @ w @ (post @ b)" by simp
  ultimately show ?thesis using k unfolding contains_word_def by blast
qed

lemma rev_split:
  "rev (dropWhile P (rev s)) @ rev (takeWhile P (rev s)) = s"
proof -
  have "rev (dropWhile P (rev s)) @ rev (takeWhile P (rev s)) =
        rev (takeWhile P (rev s) @ dropWhile P (rev s))"
    by (simp only: rev_append)
  also have "\<dots> = rev (rev s)" by (simp only: takeWhile_dropWhile_id)
  also have "\<dots> = s" by (simp only: rev_rev_ident)
  finally show ?thesis .
qed

lemma strip_decomp:
  "\<exists>a b. a @ strip s @ b = s \<and> list_all is_space a \<and> list_all is_space b"
proof -
  define a where "a = takeWhile is_space s"
  define t where "t = dropWhile is_space s"
  define b where "b = rev (takeWhile is_space (rev t))"
  have t: "strip s @ b = t" unfolding strip_def b_def t_def by (rule rev_split)
  have "a @ t = s" unfolding a_def t_def by (rule takeWhile_dropWhile_id)
  then have "a @ strip s @ b = s" unfolding t .
  moreover have "list_all is_space a" unfolding a_def list_all_iff
    by (auto dest: set_takeWhileD)
  moreover have "list_all is_space b" unfolding b_def list_all_iff
    by (auto dest: set_takeWhileD)
  ultimately show ?thesis by blast
qed

lemma rstrip_decomp:
  "\<exists>b. rstrip chars s @ b = s \<and> list_all (\<lambda>c. c \<in> set chars) b"
proof -
  define b where "b = rev (takeWhile (\<lambda>c. c \<in> set chars) (rev s))"
  have "rstrip chars s @ b = s" unfolding rstrip_def b_def by (rule rev_split)
  moreover have "list_all (\<lambda>c. c \<in> set chars) b" unfolding b_def list_all_iff
    by (auto dest: set_takeWhileD)
  ultimately show ?thesis by blast
qed

lemma list_all_mono:
  "list_all P xs \<Longrightarrow> (\<And>x. P x \<Longrightarrow> Q x) \<Longrightarrow> list_all Q xs"
  by (induction xs) simp_all

lemma semicolon_not_word: "c \<in> set (lit '';'') \<Longrightarrow> \<not> is_word A c"
  by (simp add: lit_def is_word_def)

lemma contains_word_stripped:
  assumes "contains_word A kws (rstrip (lit '';'') (strip s))"
  shows "contains_word A kws s"
proof -
  obtain a b where s: "a @ strip s @ b = s" and a: "list_all is_space a"
    and b: "list_all is_space b"
    using strip_decomp by blast
  obtain e where t: "rstrip (lit '';'') (strip s) @ e = strip s"
    and e: "list_all (\<lambda>c. c \<in> set (lit '';'')) e"
    using rstrip_decomp by blast
  from a have na: "list_all (\<lambda>c. \<not> is_word A c) a"
    by (rule list_all_mono) (rule space_not_word)
  from b have "list_all (\<lambda>c. \<not> is_word A c) b"
    by (rule list_all_mono) (rule space_not_word)
  moreover from e have "list_all (\<lambda>c. \<not> is_word A c) e"
    by (rule list_all_mono) (rule semicolon_not_word)
  ultimately have nb: "list_all (\<lambda>c. \<not> is_word A c) (e @ b)"
    by simp
  from nonword_ends[OF na] have la: "\<not> opt_word A (last_opt None a)" by simp
  from nonword_ends[OF nb] have hb: "\<not> opt_word A (head_opt (e @ b))" by simp
  have c: "contains_word A kws (a @ rstrip (lit '';'') (strip s) @ e @ b)"
    by (rule contains_word_embed[OF assms la hb])
  have "a @ (rstrip (lit '';'') (strip s) @ e) @ b = s" unfolding t by (rule s)
  then have "a @ rstrip (lit '';'') (strip s) @ e @ b = s" by (simp only: append_assoc)
  with c show ?thesis by (simp only:)
qed

lemma opt_word_head_sep:
  "\<not> is_word A c \<Longrightarrow> opt_word A (head_opt (a @ c # b)) = opt_word A (head_opt a)"
  by (cases a) (simp_all add: head_opt_def opt_word_def)

lemma kw_here_sep:
  assumes "list_all is_ascii_letter kw" "\<not> is_word A c"
  shows "kw_here A kw prev (a @ c # b) = kw_here A kw prev a"
proof (cases "imatch kw a")
  case True
  then have le: "length kw \<le> length a" by (rule imatch_length)
  from True have m: "imatch kw (a @ c # b)"
    by (simp add: imatch_append_nonword[OF assms])
  from le have t: "take (length kw) (a @ c # b) = take (length kw) a" by simp
  from le have d: "drop (length kw) (a @ c # b) = drop (length kw) a @ c # b" by simp
  show ?thesis
    unfolding kw_here_def at_boundary_def t d
    by (simp add: True m opt_word_head_sep[OF assms(2)])
next
  case False
  then have "\<not> imatch kw (a @ c # b)"
    by (simp add: imatch_append_nonword[OF assms])
  with False show ?thesis by (simp add: kw_here_def)
qed

lemma count_from_sep:
  assumes "list_all is_ascii_letter kw" "\<not> is_word A c"
  shows "count_from A kw prev (a @ c # b) = count_from A kw prev a + count_from A kw (Some c) b"
proof (induction a arbitrary: prev)
  case Nil
  have "kw_here A kw prev (c # b) = kw_here A kw prev []"
    using kw_here_sep[OF assms, of prev "[]" b] by simp
  then show ?case by simp
next
  case (Cons x a)
  have "kw_here A kw prev (x # a @ c # b) = kw_here A kw prev (x # a)"
    using kw_here_sep[OF assms, of prev "x # a" b] by simp
  with Cons show ?case by simp
qed

lemma count_from_zero:
  "\<not> search_from A [kw] prev s \<Longrightarrow> count_from A kw prev s = 0"
  by (induction s arbitrary: prev) simp_all


lemma apply_fixes_cons:
  "patterns_ok F \<Longrightarrow> \<not> is_word A d \<Longrightarrow> apply_fixes F (d # q) = d # apply_fixes F q"
  using apply_fixes_sep[of F A d "[]" q] by (simp add: apply_fixes_Nil)


lemma apply_fixes_head:
  assumes "patterns_ok F" "\<not> opt_word A (head_opt post)"
  shows "\<not> opt_word A (head_opt (apply_fixes F post))"
proof (cases post)
  case Nil
  then show ?thesis by (simp add: apply_fixes_Nil head_opt_def opt_word_def)
next
  case (Cons d q)
  with assms(2) have d: "\<not> is_word A d" by (simp add: head_opt_def opt_word_def)
  show ?thesis unfolding Cons apply_fixes_cons[OF assms(1) d]
    using d by (simp add: head_opt_def opt_word_def)
qed




lemma space_char_not_word: "\<not> is_word A 32"
  by (simp add: is_word_def)

lemma letters_LIMIT: "list_all is_ascii_letter (lit ''LIMIT'')"
  by code_simp

lemma lit_LIMIT_500: "lit '' LIMIT 500'' = 32 # lit ''LIMIT 500''"
  by (simp add: lit_def)

lemma count_LIMIT_tail: "count_from A (lit ''LIMIT'') (Some 32) (lit ''LIMIT 500'') = 1"
  by code_simp







section \<open>What the two substitutions of the generator remove\<close>







section \<open>The two guards\<close>

text \<open>
  C1. Every input that holds a case-insensitive, word-boundary-delimited occurrence of
  one of the nine blocked keywords, at any position, is refused with the HTTP 400 error
  "Unsafe SQL blocked. Only SELECT allowed."; the result is the error and no SQL text.
  The input is any sequence of code points and the table of wide alphanumerics is any.
\<close>

theorem sanitize_sql_blocks_mutation_keywords:
  assumes "contains_word A DANGEROUS sql"
  shows "sanitize_sql A sql =
           Inl (HTTPException 400 (lit ''Unsafe SQL blocked. Only SELECT allowed.''))"
  using assms by (simp add: sanitize_sql_def re_search_words_iff keywords_ok_DANGEROUS)

theorem sanitize_sql_blocks_mutation_keywords_witness:
  "\<forall>A. contains_word A DANGEROUS (lit ''select * from payments; DROP TABLE payments;'') \<and>
       sanitize_sql A (lit ''select * from payments; DROP TABLE payments;'') =
         Inl (HTTPException 400 (lit ''Unsafe SQL blocked. Only SELECT allowed.''))"
proof
  fix A
  have h: "contains_word A DANGEROUS (lit ''select * from payments; DROP TABLE payments;'')"
    unfolding re_search_words_iff[OF keywords_ok_DANGEROUS, symmetric] by code_simp
  from h sanitize_sql_blocks_mutation_keywords[OF h]
  show "contains_word A DANGEROUS (lit ''select * from payments; DROP TABLE payments;'') \<and>
       sanitize_sql A (lit ''select * from payments; DROP TABLE payments;'') =
         Inl (HTTPException 400 (lit ''Unsafe SQL blocked. Only SELECT allowed.''))" ..
qed

text \<open>
  C2, as stated, fails: an input without SELECT that holds a blocked keyword is refused
  by the mutation guard, which runs first, and so with the other error.
\<close>

theorem sanitize_sql_no_select_counterexample:
  "\<forall>A. \<not> contains_word A [lit ''SELECT''] (lit ''UPDATE invoices SET totalamount=0'') \<and>
       sanitize_sql A (lit ''UPDATE invoices SET totalamount=0'') =
         Inl (HTTPException 400 (lit ''Unsafe SQL blocked. Only SELECT allowed.'')) \<and>
       sanitize_sql A (lit ''UPDATE invoices SET totalamount=0'') \<noteq>
         Inl (HTTPException 400 (lit ''Only SELECT queries are allowed.''))"
proof
  fix A
  have n: "\<not> contains_word A [lit ''SELECT''] (lit ''UPDATE invoices SET totalamount=0'')"
    unfolding re_search_words_iff[OF keywords_ok_SELECT, symmetric] by code_simp
  have e: "sanitize_sql A (lit ''UPDATE invoices SET totalamount=0'') =
     Inl (HTTPException 400 (lit ''Unsafe SQL blocked. Only SELECT allowed.''))"
    by code_simp
  have d: "lit ''Unsafe SQL blocked. Only SELECT allowed.'' \<noteq>
           lit ''Only SELECT queries are allowed.''"
    by code_simp
  from d have "sanitize_sql A (lit ''UPDATE invoices SET totalamount=0'') \<noteq>
         Inl (HTTPException 400 (lit ''Only SELECT queries are allowed.''))"
    unfolding e by simp
  with n e
  show "\<not> contains_word A [lit ''SELECT''] (lit ''UPDATE invoices SET totalamount=0'') \<and>
       sanitize_sql A (lit ''UPDATE invoices SET totalamount=0'') =
         Inl (HTTPException 400 (lit ''Unsafe SQL blocked. Only SELECT allowed.'')) \<and>
       sanitize_sql A (lit ''UPDATE invoices SET totalamount=0'') \<noteq>
         Inl (HTTPException 400 (lit ''Only SELECT queries are allowed.''))"
    by (intro conjI)
qed

text \<open>
  C2, amended. Every input that holds no blocked keyword and no case-insensitive,
  word-boundary-delimited SELECT is refused with the HTTP 400 error
  "Only SELECT queries are allowed.".
\<close>

theorem sanitize_sql_requires_select:
  assumes "\<not> contains_word A DANGEROUS sql" and "\<not> contains_word A [lit ''SELECT''] sql"
  shows "sanitize_sql A sql = Inl (HTTPException 400 (lit ''Only SELECT queries are allowed.''))"
  using assms
  by (simp add: sanitize_sql_def re_search_words_iff keywords_ok_DANGEROUS keywords_ok_SELECT)

theorem sanitize_sql_requires_select_witness:
  "\<forall>A. \<not> contains_word A DANGEROUS (lit ''I cannot answer that.'') \<and>
       \<not> contains_word A [lit ''SELECT''] (lit ''I cannot answer that.'') \<and>
       sanitize_sql A (lit ''I cannot answer that.'') =
         Inl (HTTPException 400 (lit ''Only SELECT queries are allowed.''))"
proof
  fix A
  have d: "\<not> contains_word A DANGEROUS (lit ''I cannot answer that.'')"
    unfolding re_search_words_iff[OF keywords_ok_DANGEROUS, symmetric] by code_simp
  have n: "\<not> contains_word A [lit ''SELECT''] (lit ''I cannot answer that.'')"
    unfolding re_search_words_iff[OF keywords_ok_SELECT, symmetric] by code_simp
  from d n sanitize_sql_requires_select[OF d n]
  show "\<not> contains_word A DANGEROUS (lit ''I cannot answer that.'') \<and>
       \<not> contains_word A [lit ''SELECT''] (lit ''I cannot answer that.'') \<and>
       sanitize_sql A (lit ''I cannot answer that.'') =
         Inl (HTTPException 400 (lit ''Only SELECT queries are allowed.''))"
    by (intro conjI)
qed

section \<open>The identifier fixes\<close>

text \<open>
  C3 fails in the code: the fixes are not idempotent. The sanitizer's own output for
  \<^verbatim>\<open>SELECT vendorid FROM invoices\<close> passes both guards again, and on this second run
  the key \<^verbatim>\<open>vendorid\<close> matches, case-insensitively, inside the quoted identifier that
  the first run wrote, which is quoted once more.
\<close>

theorem sanitize_sql_requotes_identifier:
  \<open>sanitize_sql A (lit ''SELECT vendorid FROM invoices'') =
     Inr (lit ''SELECT "vendorId" FROM invoices LIMIT 500'') \<and>
   sanitize_sql A (lit ''SELECT "vendorId" FROM invoices LIMIT 500'') =
     Inr (lit ''SELECT ""vendorId"" FROM invoices LIMIT 500'')\<close>
proof
  show \<open>sanitize_sql A (lit ''SELECT vendorid FROM invoices'') =
     Inr (lit ''SELECT "vendorId" FROM invoices LIMIT 500'')\<close>
    by code_simp
  show \<open>sanitize_sql A (lit ''SELECT "vendorId" FROM invoices LIMIT 500'') =
     Inr (lit ''SELECT ""vendorId"" FROM invoices LIMIT 500'')\<close>
    by code_simp
qed




section \<open>The row cap\<close>

text \<open>
  C4, as stated, fails: the sanitizer looks for LIMIT in the text as the identifier
  fixes left it. In \<^verbatim>\<open>limitvendorid\<close> the input holds no LIMIT of its own, but the
  quote that the fix puts behind \<^verbatim>\<open>limit\<close> ends the word there, and nothing is
  appended.
\<close>

theorem sanitize_sql_appends_limit_counterexample:
  \<open>\<forall>A. \<not> contains_word A DANGEROUS (lit ''SELECT limitvendorid FROM t'') \<and>
       contains_word A [lit ''SELECT''] (lit ''SELECT limitvendorid FROM t'') \<and>
       \<not> contains_word A [lit ''LIMIT''] (lit ''SELECT limitvendorid FROM t'') \<and>
       sanitize_sql A (lit ''SELECT limitvendorid FROM t'') =
         Inr (lit ''SELECT limit"vendorId" FROM t'')\<close>
proof
  fix A
  have d: \<open>\<not> contains_word A DANGEROUS (lit ''SELECT limitvendorid FROM t'')\<close>
    unfolding re_search_words_iff[OF keywords_ok_DANGEROUS, symmetric] by code_simp
  have s: \<open>contains_word A [lit ''SELECT''] (lit ''SELECT limitvendorid FROM t'')\<close>
    unfolding re_search_words_iff[OF keywords_ok_SELECT, symmetric] by code_simp
  have n: \<open>\<not> contains_word A [lit ''LIMIT''] (lit ''SELECT limitvendorid FROM t'')\<close>
    unfolding re_search_words_iff[OF keywords_ok_LIMIT, symmetric] by code_simp
  have e: \<open>sanitize_sql A (lit ''SELECT limitvendorid FROM t'') =
      Inr (lit ''SELECT limit"vendorId" FROM t'')\<close>
    by code_simp
  from d s n e
  show \<open>\<not> contains_word A DANGEROUS (lit ''SELECT limitvendorid FROM t'') \<and>
       contains_word A [lit ''SELECT''] (lit ''SELECT limitvendorid FROM t'') \<and>
       \<not> contains_word A [lit ''LIMIT''] (lit ''SELECT limitvendorid FROM t'') \<and>
       sanitize_sql A (lit ''SELECT limitvendorid FROM t'') =
         Inr (lit ''SELECT limit"vendorId" FROM t'')\<close>
    by (intro conjI)
qed

text \<open>
  C4, amended. Every input that holds no blocked keyword, holds a word-boundary SELECT,
  and whose text after the identifier fixes holds no case-insensitive word-boundary
  LIMIT, comes back as that text with surrounding whitespace and then trailing
  semicolons stripped and \<^verbatim>\<open> LIMIT 500\<close> appended; the output holds exactly one LIMIT
  keyword.
\<close>

theorem sanitize_sql_appends_limit:
  assumes "\<not> contains_word A DANGEROUS sql" and "contains_word A [lit ''SELECT''] sql"
    and "\<not> contains_word A [lit ''LIMIT''] (apply_fixes fixes_dict sql)"
  shows "sanitize_sql A sql =
           Inr (rstrip (lit '';'') (strip (apply_fixes fixes_dict sql)) @ lit '' LIMIT 500'') \<and>
         count_words A (lit ''LIMIT'')
           (rstrip (lit '';'') (strip (apply_fixes fixes_dict sql)) @ lit '' LIMIT 500'') = 1"
proof
  from assms show "sanitize_sql A sql =
      Inr (rstrip (lit '';'') (strip (apply_fixes fixes_dict sql)) @ lit '' LIMIT 500'')"
    by (simp add: sanitize_sql_def re_search_words_iff keywords_ok_DANGEROUS
        keywords_ok_SELECT keywords_ok_LIMIT)
next
  define core where "core = rstrip (lit '';'') (strip (apply_fixes fixes_dict sql))"
  from assms(3) have "\<not> contains_word A [lit ''LIMIT''] core"
    unfolding core_def using contains_word_stripped by blast
  then have "\<not> search_from A [lit ''LIMIT''] None core"
    by (simp add: re_search_words_iff[OF keywords_ok_LIMIT, symmetric] re_search_words_def)
  then have z: "count_from A (lit ''LIMIT'') None core = 0" by (rule count_from_zero)
  have "count_from A (lit ''LIMIT'') None (core @ 32 # lit ''LIMIT 500'') =
        count_from A (lit ''LIMIT'') None core +
        count_from A (lit ''LIMIT'') (Some 32) (lit ''LIMIT 500'')"
    by (rule count_from_sep[OF letters_LIMIT space_char_not_word])
  with z have "count_words A (lit ''LIMIT'') (core @ lit '' LIMIT 500'') = 1"
    by (simp only: count_words_def count_LIMIT_tail lit_LIMIT_500)
  then show "count_words A (lit ''LIMIT'')
      (rstrip (lit '';'') (strip (apply_fixes fixes_dict sql)) @ lit '' LIMIT 500'') = 1"
    unfolding core_def .
qed

theorem sanitize_sql_appends_limit_witness:
  \<open>\<forall>A. \<not> contains_word A DANGEROUS (lit ''SELECT vendorid FROM invoices; '') \<and>
       contains_word A [lit ''SELECT''] (lit ''SELECT vendorid FROM invoices; '') \<and>
       \<not> contains_word A [lit ''LIMIT'']
           (apply_fixes fixes_dict (lit ''SELECT vendorid FROM invoices; '')) \<and>
       sanitize_sql A (lit ''SELECT vendorid FROM invoices; '') =
         Inr (lit ''SELECT "vendorId" FROM invoices LIMIT 500'') \<and>
       count_words A (lit ''LIMIT'') (lit ''SELECT "vendorId" FROM invoices LIMIT 500'') = 1\<close>
proof
  fix A
  have d: \<open>\<not> contains_word A DANGEROUS (lit ''SELECT vendorid FROM invoices; '')\<close>
    unfolding re_search_words_iff[OF keywords_ok_DANGEROUS, symmetric] by code_simp
  have s: \<open>contains_word A [lit ''SELECT''] (lit ''SELECT vendorid FROM invoices; '')\<close>
    unfolding re_search_words_iff[OF keywords_ok_SELECT, symmetric] by code_simp
  have n: \<open>\<not> contains_word A [lit ''LIMIT'']
      (apply_fixes fixes_dict (lit ''SELECT vendorid FROM invoices; ''))\<close>
    unfolding re_search_words_iff[OF keywords_ok_LIMIT, symmetric] by code_simp
  have e: \<open>rstrip (lit '';'')
        (strip (apply_fixes fixes_dict (lit ''SELECT vendorid FROM invoices; ''))) @
      lit '' LIMIT 500'' = lit ''SELECT "vendorId" FROM invoices LIMIT 500''\<close>
    by code_simp
  note t = sanitize_sql_appends_limit[OF d s n, unfolded e]
  from d s n conjunct1[OF t] conjunct2[OF t]
  show \<open>\<not> contains_word A DANGEROUS (lit ''SELECT vendorid FROM invoices; '') \<and>
       contains_word A [lit ''SELECT''] (lit ''SELECT vendorid FROM invoices; '') \<and>
       \<not> contains_word A [lit ''LIMIT'']
           (apply_fixes fixes_dict (lit ''SELECT vendorid FROM invoices; '')) \<and>
       sanitize_sql A (lit ''SELECT vendorid FROM invoices; '') =
         Inr (lit ''SELECT "vendorId" FROM invoices LIMIT 500'') \<and>
       count_words A (lit ''LIMIT'') (lit ''SELECT "vendorId" FROM invoices LIMIT 500'') = 1\<close>
    by (intro conjI)
qed




text \<open>
  C10. The sanitizer does not ask for a single statement: \<^verbatim>\<open>rstrip(";")\<close> removes only
  the semicolons that end the text. A semicolon between two SELECT statements stays, and
  \<^verbatim>\<open> LIMIT 500\<close> is appended behind the last statement only.
\<close>

theorem sanitize_sql_keeps_interior_semicolon:
  "sanitize_sql A (lit ''SELECT 1; SELECT 2'') = Inr (lit ''SELECT 1; SELECT 2 LIMIT 500'') \<and>
   sanitize_sql A (lit ''SELECT 1; SELECT 2;'') = Inr (lit ''SELECT 1; SELECT 2 LIMIT 500'')"
proof
  show "sanitize_sql A (lit ''SELECT 1; SELECT 2'') = Inr (lit ''SELECT 1; SELECT 2 LIMIT 500'')"
    by code_simp
  show "sanitize_sql A (lit ''SELECT 1; SELECT 2;'') = Inr (lit ''SELECT 1; SELECT 2 LIMIT 500'')"
    by code_simp
qed

section \<open>Concrete runs of the sanitizer\<close>

text \<open>
  C6. On the input \<^verbatim>\<open>SELECT vendorid FROM invoices\<close> the sanitizer rewrites the
  lower-case identifier to its quoted camel-case form and appends the default row cap.
\<close>

theorem sanitize_sql_vendorid_example:
  \<open>sanitize_sql A (lit ''SELECT vendorid FROM invoices'') =
     Inr (lit ''SELECT "vendorId" FROM invoices LIMIT 500'')\<close>
  by code_simp

text \<open>
  Inputs with code points from U+0100 on. The Kelvin sign is a \<^verbatim>\<open>K\<close> and the dotless
  \<^verbatim>\<open>i\<close> an \<^verbatim>\<open>I\<close> for \<^verbatim>\<open>re.I\<close>, so the mutation guard fires; the long \<^verbatim>\<open>s\<close> is an
  \<^verbatim>\<open>S\<close>, so the SELECT guard is passed. A wide letter before a keyword joins its word:
  with a table that holds the Greek alpha, U+03B1, the text \<^verbatim>\<open>\<alpha>DROP\<close> is no DROP. The
  dotted capital \<^verbatim>\<open>I\<close> is an \<^verbatim>\<open>i\<close> for the fixes, and the em space U+2003 is stripped.
\<close>

lemma sanitize_sql_kelvin_sign:
  "sanitize_sql A (lit ''REVO'' @ 8490 # lit ''E ALL ON invoices FROM app'') =
     Inl (HTTPException 400 (lit ''Unsafe SQL blocked. Only SELECT allowed.''))"
  by code_simp

lemma sanitize_sql_dotless_i:
  "sanitize_sql A (305 # lit ''NSERT INTO t VALUES (1)'') =
     Inl (HTTPException 400 (lit ''Unsafe SQL blocked. Only SELECT allowed.''))"
  by code_simp

lemma sanitize_sql_long_s:
  "sanitize_sql A (383 # lit ''ELECT 1'') = Inr (383 # lit ''ELECT 1 LIMIT 500'')"
  by code_simp

lemma sanitize_sql_wide_letter_joins_word:
  "sanitize_sql (\<lambda>n. n = 945) (lit ''SELECT 1 '' @ 945 # lit ''DROP'') =
     Inr (lit ''SELECT 1 '' @ 945 # lit ''DROP LIMIT 500'')"
  by code_simp

lemma sanitize_sql_dotted_I_and_em_space:
  \<open>sanitize_sql A (lit ''SELECT vendor'' @ 304 # lit ''d FROM t;'' @ [8195]) =
     Inr (lit ''SELECT "vendorId" FROM t LIMIT 500'')\<close>
  by code_simp

section \<open>What the generator keeps of the answer\<close>



end
